theory Spec2Isabelle
  imports Main "HOL-Library.AList"
begin

section \<open>Python values and exceptions\<close>

text \<open>
  The exceptions that \<open>temporal/main.py\<close> and the containers it uses can raise.
  \<open>ValueError\<close> comes from \<open>deque(maxlen=k)\<close> with a negative \<open>k\<close> and from a slice whose
  step is zero.
\<close>

datatype error = IndexError | TypeError | ValueError

text \<open>
  What \<open>__getitem__\<close> can return: one state, a list of states (slice), or Python's \<open>None\<close>.
\<close>

datatype 's pyval = State 's | StateList "'s list" | PyNone

section \<open>\<open>collections.deque\<close>\<close>

text \<open>
  The standard deque, oldest element first. \<open>maxlen\<close> is \<open>None\<close> (unbounded) or a
  non-negative integer; the constructor raises \<open>ValueError\<close> on a negative one.
\<close>

record 's deque =
  dq_items :: "'s list"
  dq_maxlen :: "int option"

definition deque_new :: "int option \<Rightarrow> error + 's deque" where
  "deque_new maxlen =
     (case maxlen of
        None \<Rightarrow> Inr \<lparr>dq_items = [], dq_maxlen = None\<rparr>
      | Some k \<Rightarrow> if k < 0 then Inl ValueError
                  else Inr \<lparr>dq_items = [], dq_maxlen = Some k\<rparr>)"

text \<open>
  \<open>append\<close> puts the element at the right end and then, when the deque is bounded and
  now longer than \<open>maxlen\<close>, pops one element from the left. With \<open>maxlen = 0\<close> the
  element just appended is the one popped.
\<close>

definition deque_append :: "'s deque \<Rightarrow> 's \<Rightarrow> 's deque" where
  "deque_append d x =
     (let ys = dq_items d @ [x] in
      case dq_maxlen d of
        None \<Rightarrow> d\<lparr>dq_items := ys\<rparr>
      | Some k \<Rightarrow> if k < int (length ys) then d\<lparr>dq_items := tl ys\<rparr>
                  else d\<lparr>dq_items := ys\<rparr>)"

definition deque_len :: "'s deque \<Rightarrow> nat" where
  "deque_len d = length (dq_items d)"

text \<open>Indexing a deque: a negative index counts from the right end; out of range raises.\<close>

definition deque_getitem :: "'s deque \<Rightarrow> int \<Rightarrow> error + 's" where
  "deque_getitem d i =
     (let n = int (length (dq_items d));
          j = (if i < 0 then n + i else i)
      in if 0 \<le> j \<and> j < n then Inr (dq_items d ! nat j) else Inl IndexError)"

section \<open>Slices and ranges\<close>

text \<open>
  \<open>slice(start, stop, step).indices(length)\<close>: the clamping of the three optional
  components against a sequence length.
\<close>

definition slice_indices ::
  "int option \<Rightarrow> int option \<Rightarrow> int option \<Rightarrow> int \<Rightarrow> error + (int \<times> int \<times> int)" where
  "slice_indices start stop step n =
     (let st = (case step of None \<Rightarrow> 1 | Some s \<Rightarrow> s) in
      if st = 0 then Inl ValueError
      else
        let lower = (if st < 0 then - 1 else 0);
            upper = (if st < 0 then n - 1 else n);
            a = (case start of
                   None \<Rightarrow> (if st < 0 then upper else lower)
                 | Some s \<Rightarrow> (if s < 0 then max (s + n) lower else min s upper));
            b = (case stop of
                   None \<Rightarrow> (if st < 0 then lower else upper)
                 | Some s \<Rightarrow> (if s < 0 then max (s + n) lower else min s upper))
        in Inr (a, b, st))"

text \<open>
  \<open>range(start, stop, step)\<close> for a non-zero step: its length, and its elements
  \<open>start + i * step\<close>.
\<close>

definition range_len :: "int \<Rightarrow> int \<Rightarrow> int \<Rightarrow> nat" where
  "range_len start stop step =
     (if 0 < step then (if start < stop then nat ((stop - start - 1) div step + 1) else 0)
      else (if stop < start then nat ((start - stop - 1) div (- step) + 1) else 0))"

definition py_range :: "int \<Rightarrow> int \<Rightarrow> int \<Rightarrow> int list" where
  "py_range start stop step =
     map (\<lambda>i. start + int i * step) [0 ..< range_len start stop step]"

text \<open>A list comprehension whose element expression may raise: the first error wins.\<close>

fun comprehension :: "('a \<Rightarrow> error + 'b) \<Rightarrow> 'a list \<Rightarrow> error + 'b list" where
  "comprehension f [] = Inr []"
| "comprehension f (x # xs) =
     (case f x of
        Inl e \<Rightarrow> Inl e
      | Inr y \<Rightarrow> (case comprehension f xs of Inl e \<Rightarrow> Inl e | Inr ys \<Rightarrow> Inr (y # ys)))"

text \<open>
  The bounds of a slice as sequence slicing states them, written without
  \<open>slice_indices\<close> so that the two can be compared: an omitted bound is the default, a
  negative bound counts from the end, and a bound beyond either end is clamped to that
  end. For a positive step the slice runs from position \<open>slice_bound\<close> of the start up to,
  not including, position \<open>slice_bound\<close> of the stop. For a negative step it runs
  downwards from the position just below \<open>slice_bound_back\<close> of the start to position
  \<open>slice_bound_back\<close> of the stop.
\<close>

definition slice_bound :: "nat \<Rightarrow> nat \<Rightarrow> int option \<Rightarrow> nat" where
  "slice_bound n dflt b =
     (case b of
        None \<Rightarrow> dflt
      | Some s \<Rightarrow> if s < 0 then n - nat (- s) else min (nat s) n)"

definition slice_bound_back :: "nat \<Rightarrow> nat \<Rightarrow> int option \<Rightarrow> nat" where
  "slice_bound_back n dflt b =
     (case b of
        None \<Rightarrow> dflt
      | Some s \<Rightarrow> if s < 0 then Suc n - nat (- s) else min (Suc (nat s)) n)"

section \<open>\<open>LimitedDict\<close>\<close>

text \<open>
  Modelled from the spec: the class \<open>LimitedDict\<close> of \<open>temporal/util.py\<close>, which
  \<open>temporal/main.py\<close> imports and whose source is not available. The spec calls it
  BoundedIdentifierMap: a mapping from identifier to snapshot with an optional maximum
  entry count; \<open>set\<close> inserts or overwrites, and when inserting a new key would exceed
  the capacity the oldest surviving entry is evicted first; \<open>get\<close> returns the value or
  the default and never fails; a capacity of \<open>0\<close> or an unset one means unbounded.
  The entries are kept in insertion order, oldest first. Overwriting an existing key
  puts it at the end of that order with its new value and evicts nothing; the spec leaves
  the place of an overwritten key open, and no result below depends on it.
\<close>

record 's limited_dict =
  ld_items :: "(string \<times> 's) list"
  ld_maxlen :: "int option"

definition ld_new :: "int option \<Rightarrow> 's limited_dict" where
  "ld_new maxlen = \<lparr>ld_items = [], ld_maxlen = maxlen\<rparr>"

definition ld_contains :: "'s limited_dict \<Rightarrow> string \<Rightarrow> bool" where
  "ld_contains d key = (map_of (ld_items d) key \<noteq> None)"

definition ld_full :: "'s limited_dict \<Rightarrow> bool" where
  "ld_full d =
     (case ld_maxlen d of
        None \<Rightarrow> False
      | Some c \<Rightarrow> c \<noteq> 0 \<and> c \<le> int (length (ld_items d)))"

definition ld_setitem :: "'s limited_dict \<Rightarrow> string \<Rightarrow> 's \<Rightarrow> 's limited_dict" where
  "ld_setitem d key v =
     (if ld_contains d key
      then d\<lparr>ld_items := AList.delete key (ld_items d) @ [(key, v)]\<rparr>
      else if ld_full d then d\<lparr>ld_items := tl (ld_items d) @ [(key, v)]\<rparr>
      else d\<lparr>ld_items := ld_items d @ [(key, v)]\<rparr>)"

definition ld_get :: "'s limited_dict \<Rightarrow> string \<Rightarrow> 's pyval \<Rightarrow> 's pyval" where
  "ld_get d key dflt =
     (case map_of (ld_items d) key of None \<Rightarrow> dflt | Some v \<Rightarrow> State v)"

section \<open>\<open>TemporalObject\<close>\<close>

record 's temporal_object =
  buffer :: "'s deque"
  id_index :: "'s limited_dict"

text \<open>\<open>__init__\<close>: the deque is built first, so a negative depth raises there.\<close>

definition init :: "int option \<Rightarrow> error + 's temporal_object" where
  "init temporal_depth =
     (case deque_new temporal_depth of
        Inl e \<Rightarrow> Inl e
      | Inr b \<Rightarrow> Inr \<lparr>buffer = b, id_index = ld_new temporal_depth\<rparr>)"

text \<open>\<open>_add\<close>: the identifier map is written first, then the buffer.\<close>

definition add :: "'s temporal_object \<Rightarrow> string \<Rightarrow> 's \<Rightarrow> 's temporal_object" where
  "add self ident state =
     (let self1 = self\<lparr>id_index := ld_setitem (id_index self) ident state\<rparr>
      in self1\<lparr>buffer := deque_append (buffer self1) state\<rparr>)"

text \<open>
  \<open>update\<close>: the last argument stands for the value of \<open>str(uuid.uuid4())\<close>, which is
  used only when no identifier is given. Returns the identifier and the new object.
\<close>

definition update ::
  "'s temporal_object \<Rightarrow> 's \<Rightarrow> string option \<Rightarrow> string \<Rightarrow> string \<times> 's temporal_object" where
  "update self object_state temporal_id uuid4 =
     (let tid = (case temporal_id of None \<Rightarrow> uuid4 | Some i \<Rightarrow> i)
      in (tid, add self tid object_state))"

definition get_by_temporal_id :: "'s temporal_object \<Rightarrow> string \<Rightarrow> 's pyval" where
  "get_by_temporal_id self temporal_id = ld_get (id_index self) temporal_id PyNone"

definition len :: "'s temporal_object \<Rightarrow> nat" where
  "len self = deque_len (buffer self)"

definition contains :: "'s temporal_object \<Rightarrow> string \<Rightarrow> bool" where
  "contains self key = ld_contains (id_index self) key"

text \<open>The argument of \<open>__getitem__\<close>: an int, a slice, a str, or anything else.\<close>

datatype index =
    IntIndex int
  | SliceIndex "int option" "int option" "int option"
  | StrIndex string
  | OtherIndex

fun getitem :: "'s temporal_object \<Rightarrow> index \<Rightarrow> error + 's pyval" where
  "getitem self (IntIndex index) =
     (let index = (if index < 0 then \<bar>index\<bar> else index) in
      if index < 0 \<or> int (deque_len (buffer self)) \<le> index then Inl IndexError
      else (case deque_getitem (buffer self) (- 1 - index) of
              Inl e \<Rightarrow> Inl e
            | Inr s \<Rightarrow> Inr (State s)))"
| "getitem self (SliceIndex start stop step) =
     (case slice_indices start stop step (int (deque_len (buffer self))) of
        Inl e \<Rightarrow> Inl e
      | Inr (a, b, c) \<Rightarrow>
          (case comprehension (deque_getitem (buffer self)) (py_range a b c) of
             Inl e \<Rightarrow> Inl e
           | Inr xs \<Rightarrow> Inr (StateList xs)))"
| "getitem self (StrIndex temporal_id) = Inr (get_by_temporal_id self temporal_id)"
| "getitem self OtherIndex = Inl TypeError"

text \<open>
  \<open>get\<close>: a state is a dict from field names to values, here an association list. The
  condition \<open>key in self[relative_index]\<close> is evaluated first, so an indexing error
  leaves before the default is looked at. With an integer index \<open>__getitem__\<close> returns a
  state or raises; the last branch is never taken.
\<close>

definition get ::
  "(string \<times> 'a) list temporal_object \<Rightarrow> string \<Rightarrow> int \<Rightarrow> 'a option \<Rightarrow> error + 'a option" where
  "get self key relative_index dflt =
     (case getitem self (IntIndex relative_index) of
        Inl e \<Rightarrow> Inl e
      | Inr (State s) \<Rightarrow>
          (case map_of s key of None \<Rightarrow> Inr dflt | Some x \<Rightarrow> Inr (Some x))
      | Inr _ \<Rightarrow> Inl TypeError)"

definition recent :: "'s temporal_object \<Rightarrow> int \<Rightarrow> error + 's pyval" where
  "recent self n = getitem self (SliceIndex (Some (- n)) None None)"

definition current :: "'s temporal_object \<Rightarrow> error + 's" where
  "current self = deque_getitem (buffer self) (- 1)"

section \<open>Sequences of \<open>update\<close> calls\<close>

text \<open>
  One call of \<open>update\<close>: the state passed, the identifier passed (if any) and the value
  the identifier generator would give. \<open>updates\<close> runs the calls in order and returns the
  identifiers that \<open>update\<close> returned together with the final object.
\<close>

type_synonym 's call = "'s \<times> string option \<times> string"

fun updates :: "'s temporal_object \<Rightarrow> 's call list \<Rightarrow> string list \<times> 's temporal_object" where
  "updates self [] = ([], self)"
| "updates self ((s, tid, u) # cs) =
     (case update self s tid u of
        (i, self1) \<Rightarrow> (case updates self1 cs of (is, self2) \<Rightarrow> (i # is, self2)))"

text \<open>
  The identifiers of the snapshots that are in the buffer after a sequence of calls: the
  buffer holds the snapshots of the last \<open>len\<close> calls, so these are the identifiers
  returned by those calls.
\<close>

definition retained_ids :: "'s temporal_object \<Rightarrow> 's call list \<Rightarrow> string list" where
  "retained_ids self cs =
     (case updates self cs of
        (is, self1) \<Rightarrow> drop (length is - len self1) is)"

text \<open>The identifier that \<open>update\<close> returns for a call, and the entry it registers.\<close>

definition call_id :: "'s call \<Rightarrow> string" where
  "call_id c = (case c of (s, tid, u) \<Rightarrow> (case tid of None \<Rightarrow> u | Some i \<Rightarrow> i))"

definition call_entry :: "'s call \<Rightarrow> string \<times> 's" where
  "call_entry c = (call_id c, fst c)"

section \<open>Example objects\<close>

text \<open>
  A buffer \<open>[A, B, C]\<close> with \<open>C\<close> the most recent (the states are numbers here), and a buffer
  of two dict states.
\<close>

definition abc :: "nat temporal_object" where
  "abc = \<lparr>buffer = \<lparr>dq_items = [10, 20, 30], dq_maxlen = None\<rparr>,
          id_index = \<lparr>ld_items = [(''a'', 10), (''b'', 20), (''c'', 30)], ld_maxlen = None\<rparr>\<rparr>"

definition two_states :: "(string \<times> int) list temporal_object" where
  "two_states =
     \<lparr>buffer = \<lparr>dq_items = [[(''x'', 1)], [(''x'', 2)]], dq_maxlen = None\<rparr>,
      id_index = \<lparr>ld_items = [(''a'', [(''x'', 1)]), (''b'', [(''x'', 2)])],
                  ld_maxlen = None\<rparr>\<rparr>"

definition no_states :: "nat temporal_object" where
  "no_states = \<lparr>buffer = \<lparr>dq_items = [], dq_maxlen = None\<rparr>,
                id_index = \<lparr>ld_items = [], ld_maxlen = None\<rparr>\<rparr>"

text \<open>
  Fresh objects of depth 2, 0 and 3 and of unlimited depth, and sequences of \<open>update\<close>
  calls: three calls with distinct identifiers, four calls that use the identifier \<open>y\<close>
  twice, and two calls with the same identifier.
\<close>

definition calls3 :: "nat call list" where
  "calls3 = [(10, Some ''a'', ''u1''), (20, Some ''b'', ''u2''), (30, Some ''c'', ''u3'')]"

definition depth2 :: "nat temporal_object" where
  "depth2 = \<lparr>buffer = \<lparr>dq_items = [], dq_maxlen = Some 2\<rparr>,
             id_index = \<lparr>ld_items = [], ld_maxlen = Some 2\<rparr>\<rparr>"

definition depth0 :: "nat temporal_object" where
  "depth0 = \<lparr>buffer = \<lparr>dq_items = [], dq_maxlen = Some 0\<rparr>,
             id_index = \<lparr>ld_items = [], ld_maxlen = Some 0\<rparr>\<rparr>"

definition unbounded :: "nat temporal_object" where
  "unbounded = \<lparr>buffer = \<lparr>dq_items = [], dq_maxlen = None\<rparr>,
                id_index = \<lparr>ld_items = [], ld_maxlen = None\<rparr>\<rparr>"

definition depth3 :: "nat temporal_object" where
  "depth3 = \<lparr>buffer = \<lparr>dq_items = [], dq_maxlen = Some 3\<rparr>,
             id_index = \<lparr>ld_items = [], ld_maxlen = Some 3\<rparr>\<rparr>"

definition dup_calls :: "nat call list" where
  "dup_calls = [(10, Some ''x'', ''u1''), (20, Some ''y'', ''u2''), (30, Some ''y'', ''u3''),
                (40, Some ''z'', ''u4'')]"

definition same_id_calls :: "nat call list" where
  "same_id_calls = [(10, Some ''x'', ''u1''), (20, Some ''x'', ''u2'')]"

section \<open>Indexing\<close>

lemma deque_getitem_last:
  "deque_getitem d (- 1) =
     (if dq_items d = [] then Inl IndexError else Inr (last (dq_items d)))"
  by (cases "dq_items d" rule: rev_cases) (simp_all add: deque_getitem_def Let_def)

lemma getitem_int:
  "getitem self (IntIndex i) =
     (if nat \<bar>i\<bar> < len self
      then Inr (State (rev (dq_items (buffer self)) ! nat \<bar>i\<bar>))
      else Inl IndexError)"
proof (cases "nat \<bar>i\<bar> < len self")
  case True
  let ?xs = "dq_items (buffer self)"
  have lt: "\<bar>i\<bar> < int (length ?xs)"
    using True by (simp add: len_def deque_len_def)
  have neg: "- 1 - \<bar>i\<bar> < 0" by linarith
  have eq: "int (length ?xs) + (- 1 - \<bar>i\<bar>) = int (length ?xs) - 1 - \<bar>i\<bar>" by simp
  have rng: "0 \<le> int (length ?xs) - 1 - \<bar>i\<bar> \<and> int (length ?xs) - 1 - \<bar>i\<bar> < int (length ?xs)"
    using lt by linarith
  have "deque_getitem (buffer self) (- 1 - \<bar>i\<bar>)
          = Inr (?xs ! nat (int (length ?xs) - 1 - \<bar>i\<bar>))"
    unfolding deque_getitem_def Let_def using neg rng by (simp only: if_True eq simp_thms)
  moreover have "nat (int (length ?xs) - 1 - \<bar>i\<bar>) = length ?xs - Suc (nat \<bar>i\<bar>)"
    using lt by linarith
  moreover have "rev ?xs ! nat \<bar>i\<bar> = ?xs ! (length ?xs - Suc (nat \<bar>i\<bar>))"
    using True by (simp add: rev_nth len_def deque_len_def)
  ultimately have d: "deque_getitem (buffer self) (- 1 - \<bar>i\<bar>) = Inr (rev ?xs ! nat \<bar>i\<bar>)"
    by simp
  have "getitem self (IntIndex i)
          = (case deque_getitem (buffer self) (- 1 - \<bar>i\<bar>) of
               Inl e \<Rightarrow> Inl e | Inr s \<Rightarrow> Inr (State s))"
    using lt by (auto simp: Let_def deque_len_def)
  then show ?thesis using True by (simp add: d)
next
  case False
  then have "int (deque_len (buffer self)) \<le> \<bar>i\<bar>"
    by (simp add: len_def)
  then have "getitem self (IntIndex i) = Inl IndexError"
    by (auto simp: Let_def)
  then show ?thesis using False by simp
qed

text \<open>
  C4. Indexing by a negative integer \<open>i\<close> is indexing by \<open>|i|\<close>, and the index is a
  recency position counted back from the most recent state: the result is element \<open>|i|\<close>
  of the reversed buffer when \<open>|i|\<close> is below the length, and \<open>IndexError\<close> otherwise. On
  the buffer \<open>[A, B, C]\<close>, indexing by \<open>1\<close> and by \<open>-1\<close> both give \<open>B\<close>, indexing by \<open>2\<close>
  and by \<open>-2\<close> both give \<open>A\<close>, whereas the deque's own index \<open>-1\<close> is \<open>C\<close>.
\<close>

theorem negative_index_is_absolute_value:
  "i < 0 \<Longrightarrow>
     getitem self (IntIndex i) = getitem self (IntIndex \<bar>i\<bar>)
   \<and> getitem self (IntIndex i) =
       (if nat \<bar>i\<bar> < len self
        then Inr (State (rev (dq_items (buffer self)) ! nat \<bar>i\<bar>))
        else Inl IndexError)"
proof -
  have a: "getitem self (IntIndex i) = getitem self (IntIndex \<bar>i\<bar>)"
    by (simp only: getitem_int [of self i] getitem_int [of self "\<bar>i\<bar>"] abs_abs)
  show ?thesis using a getitem_int [of self i] by simp
qed

theorem negative_index_is_absolute_value_witness:
  "(- 1 :: int) < 0 \<and> (- 2 :: int) < 0
     \<and> getitem abc (IntIndex (- 1)) = Inr (State 20)
     \<and> getitem abc (IntIndex 1) = Inr (State 20)
     \<and> getitem abc (IntIndex (- 2)) = Inr (State 10)
     \<and> getitem abc (IntIndex 2) = Inr (State 10)
     \<and> getitem abc (IntIndex (- 3)) = Inl IndexError
     \<and> deque_getitem (buffer abc) (- 1) = Inr 30"
proof -
  have h1: "(- 1 :: int) < 0" and h2: "(- 2 :: int) < 0" and h3: "(- 3 :: int) < 0"
    by simp_all
  have l: "len abc = 3" by (simp add: abc_def len_def deque_len_def)
  have r: "rev (dq_items (buffer abc)) = [30, 20, 10]" by (simp add: abc_def)
  note m1 = negative_index_is_absolute_value [OF h1, of abc, unfolded l r]
  note m2 = negative_index_is_absolute_value [OF h2, of abc, unfolded l r]
  note m3 = negative_index_is_absolute_value [OF h3, of abc, unfolded l r]
  have a1: "getitem abc (IntIndex (- 1)) = Inr (State 20)"
    using m1 [THEN conjunct2] by simp
  have b1: "getitem abc (IntIndex 1) = Inr (State 20)"
    using m1 [THEN conjunct1] a1 by simp
  have a2: "getitem abc (IntIndex (- 2)) = Inr (State 10)"
    using m2 [THEN conjunct2] by simp
  have b2: "getitem abc (IntIndex 2) = Inr (State 10)"
    using m2 [THEN conjunct1] a2 by simp
  have a3: "getitem abc (IntIndex (- 3)) = Inl IndexError"
    using m3 [THEN conjunct2] by simp
  have p: "deque_getitem (buffer abc) (- 1) = Inr 30"
    by (simp add: abc_def deque_getitem_def)
  show ?thesis by (intro conjI) (rule h1 h2 a1 b1 a2 b2 a3 p)+
qed

text \<open>
  C6. Positional indexing raises \<open>IndexError\<close> whenever the normalised index is at least
  the current length, and \<open>get\<close> with such a relative index raises the same error instead
  of returning the default.
\<close>

theorem positional_index_out_of_range:
  "int (len self) \<le> \<bar>i\<bar> \<Longrightarrow>
     getitem self (IntIndex i) = Inl IndexError \<and> get self key i dflt = Inl IndexError"
proof -
  assume h: "int (len self) \<le> \<bar>i\<bar>"
  have g: "getitem self (IntIndex i) = Inl IndexError"
    using h by (auto simp add: len_def Let_def)
  show ?thesis
    by (simp only: get_def g) simp
qed

theorem positional_index_out_of_range_witness:
  "int (len two_states) \<le> \<bar>5\<bar> \<and> len two_states = 2
     \<and> getitem two_states (IntIndex 5) = Inl IndexError
     \<and> get two_states ''x'' 5 (Some 0) = Inl IndexError"
proof -
  have h: "int (len two_states) \<le> \<bar>5\<bar>"
    by (simp add: two_states_def len_def deque_len_def)
  from positional_index_out_of_range [OF h, of "''x''" "Some 0"] h
  show ?thesis by (simp add: two_states_def len_def deque_len_def)
qed

text \<open>
  C8. Indexing by an identifier never raises: it returns a value for every string, and
  that value is \<open>None\<close> when the identifier is not registered in the identifier map.
\<close>

theorem identifier_lookup_total:
  "(\<exists>v. getitem self (StrIndex s) = Inr v) \<and>
   (\<not> contains self s \<longrightarrow> getitem self (StrIndex s) = Inr PyNone)"
  by (simp add: get_by_temporal_id_def ld_get_def contains_def ld_contains_def)

theorem identifier_lookup_total_witness:
  "\<not> contains abc ''zz'' \<and> getitem abc (StrIndex ''zz'') = Inr PyNone"
proof -
  have h: "\<not> contains abc ''zz''"
    by (simp add: abc_def contains_def ld_contains_def)
  from identifier_lookup_total [of abc "''zz''"] h
  show ?thesis by simp
qed

section \<open>Sequences of calls: the buffer\<close>

lemma updates_fst: "fst (updates self cs) = map call_id cs"
proof (induction cs arbitrary: self)
  case Nil
  show ?case by simp
next
  case (Cons c cs)
  obtain s tid u where c: "c = (s, tid, u)" by (cases c)
  show ?case
    by (simp add: c update_def call_id_def Let_def case_prod_beta Cons.IH split: option.splits)
qed

lemma updates_snd_Cons:
  "snd (updates self (c # cs)) = snd (updates (add self (call_id c) (fst c)) cs)"
  by (cases c) (simp add: update_def call_id_def Let_def case_prod_beta split: option.splits)

lemma updates_snd_snoc:
  "snd (updates self (cs @ [c])) = add (snd (updates self cs)) (call_id c) (fst c)"
proof (induction cs arbitrary: self)
  case Nil
  show ?case by (cases c) (simp add: update_def call_id_def Let_def split: option.splits)
next
  case (Cons a cs)
  show ?case by (simp only: append_Cons updates_snd_Cons Cons.IH)
qed

lemma updates_snd_foldl:
  "snd (updates self cs) = foldl (\<lambda>t c. add t (call_id c) (fst c)) self cs"
  by (induction cs arbitrary: self)
     (simp_all only: updates_snd_Cons foldl.simps updates.simps snd_conv)

lemma buffer_add: "buffer (add self i s) = deque_append (buffer self) s"
  by (simp add: add_def Let_def)

lemma id_index_add: "id_index (add self i s) = ld_setitem (id_index self) i s"
  by (simp add: add_def Let_def)

lemma deque_append_maxlen: "dq_maxlen (deque_append d x) = dq_maxlen d"
  by (simp add: deque_append_def Let_def split: option.splits)

lemma deque_append_unbounded:
  "dq_maxlen d = None \<Longrightarrow> dq_items (deque_append d x) = dq_items d @ [x]"
  by (simp add: deque_append_def Let_def)

lemma deque_append_window:
  assumes "dq_maxlen d = Some k" and "0 \<le> k"
    and "dq_items d = drop (length xs - nat k) xs"
  shows "dq_items (deque_append d x) = drop (length (xs @ [x]) - nat k) (xs @ [x])"
proof (cases "nat k \<le> length xs")
  case True
  then have len: "length (dq_items d) = nat k"
    using assms(3) by simp
  have "dq_items (deque_append d x) = tl (dq_items d @ [x])"
    using assms(1,2) len by (simp add: deque_append_def Let_def)
  also have "\<dots> = drop (Suc (length xs - nat k)) (xs @ [x])"
  proof (cases "nat k = 0")
    case True
    then show ?thesis using assms(3) by simp
  next
    case False
    then have "dq_items d \<noteq> []" using len by auto
    then have "tl (dq_items d @ [x]) = tl (dq_items d) @ [x]" by simp
    also have "tl (dq_items d) = drop (Suc (length xs - nat k)) xs"
      by (simp add: assms(3) tl_drop drop_Suc)
    finally show ?thesis using False \<open>nat k \<le> length xs\<close> by simp
  qed
  also have "Suc (length xs - nat k) = length (xs @ [x]) - nat k"
    using True by simp
  finally show ?thesis .
next
  case False
  then have "dq_items d = xs" using assms(3) by simp
  moreover have "\<not> k < int (length (xs @ [x]))" using False by simp
  ultimately show ?thesis
    using False assms(1) by (simp add: deque_append_def Let_def)
qed

lemma buffer_updates_maxlen:
  "dq_maxlen (buffer (snd (updates self cs))) = dq_maxlen (buffer self)"
  by (induction cs rule: rev_induct)
     (simp_all add: updates_snd_snoc buffer_add deque_append_maxlen)

lemma buffer_updates_unbounded:
  assumes "dq_maxlen (buffer self) = None"
  shows "dq_items (buffer (snd (updates self cs))) = dq_items (buffer self) @ map fst cs"
proof (induction cs rule: rev_induct)
  case Nil
  show ?case by simp
next
  case (snoc c cs)
  have "dq_maxlen (buffer (snd (updates self cs))) = None"
    using assms by (simp add: buffer_updates_maxlen)
  then show ?case
    using snoc by (simp add: updates_snd_snoc buffer_add deque_append_unbounded)
qed

lemma buffer_updates_window:
  assumes "buffer self = \<lparr>dq_items = [], dq_maxlen = Some k\<rparr>" and "0 \<le> k"
  shows "dq_items (buffer (snd (updates self cs))) = drop (length cs - nat k) (map fst cs)"
proof (induction cs rule: rev_induct)
  case Nil
  show ?case using assms by simp
next
  case (snoc c cs)
  have m: "dq_maxlen (buffer (snd (updates self cs))) = Some k"
    using assms by (simp add: buffer_updates_maxlen)
  have "dq_items (buffer (snd (updates self cs)))
          = drop (length (map fst cs) - nat k) (map fst cs)"
    using snoc by simp
  from deque_append_window [OF m assms(2) this, of "fst c"]
  show ?case by (simp add: updates_snd_snoc buffer_add)
qed

lemmas run_defs =
  update_def add_def Let_def deque_append_def ld_setitem_def ld_contains_def ld_full_def
  len_def deque_len_def contains_def

lemma init_Some:
  "init (Some k) = Inr t0 \<Longrightarrow>
     0 \<le> k \<and> buffer t0 = \<lparr>dq_items = [], dq_maxlen = Some k\<rparr>
       \<and> id_index t0 = \<lparr>ld_items = [], ld_maxlen = Some k\<rparr>"
  by (auto simp: init_def deque_new_def ld_new_def split: if_splits)

lemma init_None:
  "init None = Inr t0 \<Longrightarrow>
     buffer t0 = \<lparr>dq_items = [], dq_maxlen = None\<rparr>
       \<and> id_index t0 = \<lparr>ld_items = [], ld_maxlen = None\<rparr>"
  by (auto simp: init_def deque_new_def ld_new_def)

lemma init_depth2: "init (Some 2) = Inr depth2"
  by (simp add: init_def deque_new_def ld_new_def depth2_def)

lemma init_depth3: "init (Some 3) = Inr depth3"
  by (simp add: init_def deque_new_def ld_new_def depth3_def)

lemma init_depth0: "init (Some 0) = Inr depth0"
  by (simp add: init_def deque_new_def ld_new_def depth0_def)

lemma init_unbounded: "init None = Inr unbounded"
  by (simp add: init_def deque_new_def ld_new_def unbounded_def)

text \<open>
  C1. For a positive depth \<open>C\<close> and any sequence of \<open>update\<close> calls on a fresh object, the
  length never exceeds \<open>C\<close>, it is the smaller of \<open>C\<close> and the number of calls, and the
  buffer holds the states of the last \<open>C\<close> calls, oldest first. An append to a full buffer
  drops the oldest state.
\<close>

theorem buffer_keeps_most_recent:
  assumes "0 < C" and "init (Some C) = Inr t0"
  shows "len (snd (updates t0 cs)) \<le> nat C
       \<and> len (snd (updates t0 cs)) = min (length cs) (nat C)
       \<and> dq_items (buffer (snd (updates t0 cs))) = drop (length cs - nat C) (map fst cs)
       \<and> (len (snd (updates t0 cs)) = nat C \<longrightarrow>
            dq_items (buffer (snd (update (snd (updates t0 cs)) s tid u)))
              = tl (dq_items (buffer (snd (updates t0 cs)))) @ [s])"
proof -
  from init_Some [OF assms(2)]
  have b: "buffer t0 = \<lparr>dq_items = [], dq_maxlen = Some C\<rparr>" and k: "0 \<le> C" by simp_all
  let ?t = "snd (updates t0 cs)"
  have items: "dq_items (buffer ?t) = drop (length cs - nat C) (map fst cs)"
    by (rule buffer_updates_window [OF b k])
  have l: "len ?t = min (length cs) (nat C)"
    by (simp add: len_def deque_len_def items)
  have m: "dq_maxlen (buffer ?t) = Some C"
    using b by (simp add: buffer_updates_maxlen)
  have step: "dq_items (buffer (snd (update ?t s tid u))) = tl (dq_items (buffer ?t)) @ [s]"
    if full: "len ?t = nat C"
  proof -
    have ne: "dq_items (buffer ?t) \<noteq> []"
      using full assms(1) by (auto simp: len_def deque_len_def)
    have "C < int (length (dq_items (buffer ?t) @ [s]))"
      using full assms(1) by (simp add: len_def deque_len_def)
    then show ?thesis
      using m ne by (simp add: update_def buffer_add deque_append_def Let_def)
  qed
  show ?thesis using items l step by simp
qed

theorem buffer_keeps_most_recent_witness:
  "(0::int) < 2 \<and> init (Some 2) = Inr depth2
     \<and> len (snd (updates depth2 calls3)) = 2
     \<and> dq_items (buffer (snd (updates depth2 calls3))) = [20, 30]
     \<and> dq_items (buffer (snd (update (snd (updates depth2 calls3)) 40 None ''u4''))) = [30, 40]"
proof -
  have i: "init (Some 2) = Inr depth2"
    by (simp add: init_def deque_new_def ld_new_def depth2_def)
  have z: "(0::int) < 2" by simp
  from buffer_keeps_most_recent [OF z i, of calls3 40 None "''u4''"] i
  show ?thesis by (simp add: calls3_def)
qed

text \<open>
  C5, as the code has it. With depth \<open>None\<close> nothing is ever evicted: after \<open>N\<close> calls the
  length is \<open>N\<close> and the buffer holds every state passed, in order.
\<close>

theorem unbounded_never_evicts:
  assumes "init None = Inr t0"
  shows "len (snd (updates t0 cs)) = length cs
       \<and> dq_items (buffer (snd (updates t0 cs))) = map fst cs"
proof -
  from init_None [OF assms]
  have b: "buffer t0 = \<lparr>dq_items = [], dq_maxlen = None\<rparr>" by simp
  then have "dq_maxlen (buffer t0) = None" by simp
  from buffer_updates_unbounded [OF this, of cs] b
  show ?thesis by (simp add: len_def deque_len_def)
qed

theorem unbounded_never_evicts_witness:
  "init None = Inr unbounded \<and> len (snd (updates unbounded calls3)) = 3
     \<and> dq_items (buffer (snd (updates unbounded calls3))) = [10, 20, 30]"
proof -
  have i: "init None = Inr unbounded"
    by (simp add: init_def deque_new_def ld_new_def unbounded_def)
  from unbounded_never_evicts [OF i, of calls3] i
  show ?thesis by (simp add: calls3_def)
qed

text \<open>
  C5 as stated fails for depth \<open>0\<close>: \<open>deque(maxlen=0)\<close> holds nothing, so after one
  \<open>update\<close> the length is \<open>0\<close>, not \<open>1\<close>.
\<close>

theorem zero_depth_keeps_nothing:
  "init (Some 0) = Inr depth0
     \<and> len (snd (updates depth0 [(10, Some ''a'', ''u1'')])) = 0
     \<and> len (snd (updates depth0 [(10, Some ''a'', ''u1'')])) \<noteq> length [(10::nat, Some ''a'', ''u1'')]"
  by (simp add: init_def deque_new_def ld_new_def depth0_def run_defs)

lemma current_after_updates:
  assumes "init cap = Inr t0" and "cap \<noteq> Some 0" and "cs \<noteq> []"
  shows "current (snd (updates t0 cs)) = Inr (fst (last cs))"
proof -
  let ?xs = "dq_items (buffer (snd (updates t0 cs)))"
  have "?xs \<noteq> [] \<and> last ?xs = fst (last cs)"
  proof (cases cap)
    case None
    with assms(1) init_None [of t0]
    have b: "buffer t0 = \<lparr>dq_items = [], dq_maxlen = None\<rparr>" by simp
    then have "dq_maxlen (buffer t0) = None" by simp
    from buffer_updates_unbounded [OF this, of cs] b
    have "?xs = map fst cs" by simp
    then show ?thesis using assms(3) by (simp add: last_map)
  next
    case (Some k)
    with assms(1) init_Some [of k t0]
    have b: "buffer t0 = \<lparr>dq_items = [], dq_maxlen = Some k\<rparr>" and "0 \<le> k" by simp_all
    with Some assms(2) have k: "0 < k" by simp
    have items: "?xs = drop (length cs - nat k) (map fst cs)"
      by (rule buffer_updates_window [OF b]) (use k in simp)
    have "0 < length cs" using assms(3) by simp
    moreover have "0 < nat k" using k by simp
    ultimately have lt: "length cs - nat k < length (map fst cs)" by simp
    then have "?xs \<noteq> []" unfolding items by simp
    moreover have "last ?xs = last (map fst cs)"
      unfolding items using lt by (rule last_drop)
    ultimately show ?thesis using assms(3) by (simp add: last_map)
  qed
  then show ?thesis
    by (simp add: current_def deque_getitem_last)
qed

text \<open>
  C9. \<open>current\<close> returns the last element of the buffer when the buffer is not empty, and
  raises \<open>IndexError\<close> when it holds no state. After a non-empty sequence of \<open>update\<close>
  calls on a fresh object whose depth is not \<open>0\<close>, that element is the state passed to the
  last call.
\<close>

theorem current_last_or_error:
  "current self =
     (if len self = 0 then Inl IndexError else Inr (last (dq_items (buffer self))))
   \<and> (init cap = Inr t0 \<and> cap \<noteq> Some 0 \<and> cs \<noteq> [] \<longrightarrow>
        current (snd (updates t0 cs)) = Inr (fst (last cs)))"
proof -
  have a: "current self =
     (if len self = 0 then Inl IndexError else Inr (last (dq_items (buffer self))))"
    by (simp add: current_def deque_getitem_last len_def deque_len_def)
  have b: "current (snd (updates t0 cs)) = Inr (fst (last cs))"
    if "init cap = Inr t0 \<and> cap \<noteq> Some 0 \<and> cs \<noteq> []"
    using that current_after_updates [of cap t0 cs] by blast
  show ?thesis using a b by blast
qed

theorem current_last_or_error_witness:
  "current no_states = Inl IndexError \<and> current abc = Inr 30
     \<and> init (Some 2) = Inr depth2 \<and> Some (2::int) \<noteq> Some 0 \<and> calls3 \<noteq> []
     \<and> current (snd (updates depth2 calls3)) = Inr 30"
proof -
  have e: "current no_states = Inl IndexError"
    using current_last_or_error [of no_states, THEN conjunct1]
    by (simp add: no_states_def len_def deque_len_def)
  have a: "current abc = Inr 30"
    using current_last_or_error [of abc, THEN conjunct1]
    by (simp add: abc_def len_def deque_len_def)
  have n: "Some (2::int) \<noteq> Some 0" by simp
  have c: "calls3 \<noteq> []" by (simp add: calls3_def)
  have "current (snd (updates depth2 calls3)) = Inr (fst (last calls3))"
    using current_last_or_error [of abc "Some 2" depth2 calls3, THEN conjunct2] init_depth2 n c
    by blast
  then have u: "current (snd (updates depth2 calls3)) = Inr 30"
    by (simp add: calls3_def)
  show ?thesis by (intro conjI) (rule e a init_depth2 n c u)+
qed

section \<open>Sequences of calls: the identifier map\<close>

lemma ld_setitem_maxlen: "ld_maxlen (ld_setitem d key v) = ld_maxlen d"
  by (simp add: ld_setitem_def)

lemma ld_contains_iff: "ld_contains d key \<longleftrightarrow> key \<in> fst ` set (ld_items d)"
  by (simp add: ld_contains_def map_of_eq_None_iff)

lemma ld_setitem_lookup: "map_of (ld_items (ld_setitem d key v)) key = Some v"
proof -
  have "map_of (tl (ld_items d)) key = None" if "\<not> ld_contains d key"
  proof -
    have "set (tl (ld_items d)) \<subseteq> set (ld_items d)"
      by (cases "ld_items d") auto
    then show ?thesis
      using that by (auto simp: ld_contains_iff map_of_eq_None_iff)
  qed
  then show ?thesis
    by (auto simp: ld_setitem_def delete_conv' map_add_def ld_contains_def)
qed

lemma ld_setitem_fresh_unbounded:
  assumes "ld_maxlen d = None \<or> ld_maxlen d = Some 0" and "key \<notin> fst ` set (ld_items d)"
  shows "ld_items (ld_setitem d key v) = ld_items d @ [(key, v)]"
  using assms by (auto simp: ld_setitem_def ld_contains_iff ld_full_def)

lemma ld_setitem_fresh_window:
  assumes "ld_maxlen d = Some k" and "0 < k"
    and "ld_items d = drop (length ps - nat k) ps"
    and "key \<notin> fst ` set ps"
  shows "ld_items (ld_setitem d key v) = drop (length (ps @ [(key, v)]) - nat k) (ps @ [(key, v)])"
proof -
  have "set (ld_items d) \<subseteq> set ps"
    using assms(3) by (simp add: set_drop_subset)
  then have fresh: "\<not> ld_contains d key"
    using assms(4) by (auto simp: ld_contains_iff)
  show ?thesis
  proof (cases "nat k \<le> length ps")
    case True
    then have "length (ld_items d) = nat k" using assms(3) by simp
    then have full: "ld_full d" using assms(1,2) by (simp add: ld_full_def)
    have "tl (ld_items d) = drop (Suc (length ps - nat k)) ps"
      by (simp add: assms(3) tl_drop drop_Suc)
    moreover have "Suc (length ps - nat k) \<le> length ps" using True assms(2) by linarith
    ultimately show ?thesis
      using fresh full True by (simp add: ld_setitem_def Suc_diff_le)
  next
    case False
    then have "ld_items d = ps" using assms(3) by simp
    moreover have "\<not> k \<le> int (length ps)" using False by linarith
    then have "\<not> ld_full d"
      using assms(1) \<open>ld_items d = ps\<close> by (simp add: ld_full_def)
    ultimately show ?thesis
      using fresh False by (simp add: ld_setitem_def)
  qed
qed

lemma id_index_updates_maxlen:
  "ld_maxlen (id_index (snd (updates self cs))) = ld_maxlen (id_index self)"
  by (induction cs rule: rev_induct)
     (simp_all add: updates_snd_snoc id_index_add ld_setitem_maxlen)

lemma id_index_updates_unbounded:
  assumes "ld_items (id_index self) = []"
    and "ld_maxlen (id_index self) = None \<or> ld_maxlen (id_index self) = Some 0"
    and "distinct (map call_id cs)"
  shows "ld_items (id_index (snd (updates self cs))) = map call_entry cs"
  using assms(3)
proof (induction cs rule: rev_induct)
  case Nil
  show ?case using assms(1) by simp
next
  case (snoc c cs)
  let ?d = "id_index (snd (updates self cs))"
  have items: "ld_items ?d = map call_entry cs" using snoc by simp
  have m: "ld_maxlen ?d = None \<or> ld_maxlen ?d = Some 0"
    using assms(2) by (simp add: id_index_updates_maxlen)
  have "fst ` set (ld_items ?d) = set (map call_id cs)"
    by (simp add: items call_entry_def image_image)
  then have "call_id c \<notin> fst ` set (ld_items ?d)" using snoc.prems by simp
  from ld_setitem_fresh_unbounded [OF m this]
  show ?case by (simp add: updates_snd_snoc id_index_add items call_entry_def)
qed

lemma id_index_updates_window:
  assumes "id_index self = \<lparr>ld_items = [], ld_maxlen = Some k\<rparr>" and "0 < k"
    and "distinct (map call_id cs)"
  shows "ld_items (id_index (snd (updates self cs)))
           = drop (length cs - nat k) (map call_entry cs)"
  using assms(3)
proof (induction cs rule: rev_induct)
  case Nil
  show ?case using assms(1) by simp
next
  case (snoc c cs)
  let ?d = "id_index (snd (updates self cs))"
  have items: "ld_items ?d = drop (length (map call_entry cs) - nat k) (map call_entry cs)"
    using snoc by simp
  have m: "ld_maxlen ?d = Some k"
    using assms(1) by (simp add: id_index_updates_maxlen)
  have "fst ` set (map call_entry cs) = set (map call_id cs)"
    by (simp add: call_entry_def image_image)
  then have "call_id c \<notin> fst ` set (map call_entry cs)" using snoc.prems by simp
  from ld_setitem_fresh_window [OF m assms(2) items this, of "fst c"]
  show ?case by (simp add: updates_snd_snoc id_index_add call_entry_def [of c])
qed

lemma retained_ids_eq:
  "retained_ids self cs
     = drop (length cs - len (snd (updates self cs))) (map call_id cs)"
  by (simp add: retained_ids_def case_prod_beta updates_fst)

lemma map_fst_call_entry: "map fst (map call_entry cs) = map call_id cs"
  by (simp add: call_entry_def)

lemma map_snd_call_entry: "map snd (map call_entry cs) = map fst cs"
  by (simp add: call_entry_def)

lemma buffer_suffix:
  assumes "init cap = Inr t0"
  shows "dq_items (buffer (snd (updates t0 cs)))
           = drop (length cs - len (snd (updates t0 cs))) (map fst cs)"
proof (cases cap)
  case None
  with assms have "dq_maxlen (buffer t0) = None" and "dq_items (buffer t0) = []"
    using init_None by fastforce+
  with buffer_updates_unbounded [of t0 cs]
  show ?thesis by (simp add: len_def deque_len_def)
next
  case (Some k)
  with assms init_Some [of k t0]
  have b: "buffer t0 = \<lparr>dq_items = [], dq_maxlen = Some k\<rparr>" and k: "0 \<le> k" by simp_all
  have items: "dq_items (buffer (snd (updates t0 cs))) = drop (length cs - nat k) (map fst cs)"
    by (rule buffer_updates_window [OF b k])
  have "length cs - (length cs - (length cs - nat k)) = length cs - nat k" by simp
  then show ?thesis
    by (simp add: len_def deque_len_def items)
qed

lemma id_index_suffix:
  assumes "init cap = Inr t0" and "cap \<noteq> Some 0" and "distinct (map call_id cs)"
  shows "ld_items (id_index (snd (updates t0 cs)))
           = drop (length cs - len (snd (updates t0 cs))) (map call_entry cs)"
proof (cases cap)
  case None
  with assms(1) init_None [of t0]
  have b: "buffer t0 = \<lparr>dq_items = [], dq_maxlen = None\<rparr>"
    and d: "id_index t0 = \<lparr>ld_items = [], ld_maxlen = None\<rparr>" by simp_all
  have "dq_maxlen (buffer t0) = None" using b by simp
  from buffer_updates_unbounded [OF this, of cs] b
  have l: "len (snd (updates t0 cs)) = length cs" by (simp add: len_def deque_len_def)
  have "ld_items (id_index (snd (updates t0 cs))) = map call_entry cs"
    by (rule id_index_updates_unbounded) (simp_all add: d assms(3))
  then show ?thesis by (simp add: l)
next
  case (Some k)
  with assms(1) init_Some [of k t0]
  have b: "buffer t0 = \<lparr>dq_items = [], dq_maxlen = Some k\<rparr>"
    and d: "id_index t0 = \<lparr>ld_items = [], ld_maxlen = Some k\<rparr>" and "0 \<le> k" by simp_all
  with Some assms(2) have k: "0 < k" by simp
  have "dq_items (buffer (snd (updates t0 cs))) = drop (length cs - nat k) (map fst cs)"
    by (rule buffer_updates_window [OF b]) (use k in simp)
  then have l: "len (snd (updates t0 cs)) = length cs - (length cs - nat k)"
    by (simp add: len_def deque_len_def)
  have "length cs - (length cs - (length cs - nat k)) = length cs - nat k" by simp
  with id_index_updates_window [OF d k assms(3)]
  show ?thesis by (simp add: l)
qed

text \<open>
  C2, as the code has it. On a fresh object whose depth is not \<open>0\<close>, after a sequence of
  \<open>update\<close> calls with pairwise distinct identifiers, the identifiers that
  \<open>__contains__\<close> accepts are exactly the identifiers of the states in the buffer, and the
  states held by the identifier map, in insertion order, are the buffer.
\<close>

theorem identifier_map_matches_buffer:
  assumes "init cap = Inr t0" and "cap \<noteq> Some 0" and "distinct (fst (updates t0 cs))"
  shows "{k. contains (snd (updates t0 cs)) k} = set (retained_ids t0 cs)
       \<and> map snd (ld_items (id_index (snd (updates t0 cs))))
           = dq_items (buffer (snd (updates t0 cs)))"
proof -
  let ?t = "snd (updates t0 cs)"
  let ?m = "length cs - len ?t"
  have d: "distinct (map call_id cs)" using assms(3) by (simp add: updates_fst)
  have items: "ld_items (id_index ?t) = drop ?m (map call_entry cs)"
    by (rule id_index_suffix [OF assms(1,2) d])
  have "{k. contains ?t k} = fst ` set (ld_items (id_index ?t))"
    by (auto simp: contains_def ld_contains_iff)
  also have "\<dots> = set (map fst (drop ?m (map call_entry cs)))"
    by (simp only: items set_map)
  also have "\<dots> = set (retained_ids t0 cs)"
    by (simp only: drop_map [symmetric] map_fst_call_entry retained_ids_eq)
  finally have keys: "{k. contains ?t k} = set (retained_ids t0 cs)" .
  have "map snd (ld_items (id_index ?t)) = drop ?m (map fst cs)"
    by (simp only: items drop_map [symmetric] map_snd_call_entry)
  then have vals: "map snd (ld_items (id_index ?t)) = dq_items (buffer ?t)"
    by (simp only: buffer_suffix [OF assms(1)])
  show ?thesis using keys vals by simp
qed

theorem identifier_map_matches_buffer_witness:
  "init (Some 2) = Inr depth2 \<and> Some (2::int) \<noteq> Some 0
     \<and> distinct (fst (updates depth2 calls3))
     \<and> {k. contains (snd (updates depth2 calls3)) k} = {''b'', ''c''}
     \<and> \<not> contains (snd (updates depth2 calls3)) ''a''"
proof -
  have d: "distinct (fst (updates depth2 calls3))"
    unfolding updates_fst by (simp add: calls3_def call_id_def)
  have n: "Some (2::int) \<noteq> Some 0" by simp
  have r: "retained_ids depth2 calls3 = [''b'', ''c'']"
    by code_simp
  from identifier_map_matches_buffer [OF init_depth2 n d]
  have "{k. contains (snd (updates depth2 calls3)) k} = set (retained_ids depth2 calls3)"
    by (rule conjunct1)
  then have s: "{k. contains (snd (updates depth2 calls3)) k} = {''b'', ''c''}"
    unfolding r by (simp add: insert_commute)
  have "''a'' \<notin> {k. contains (snd (updates depth2 calls3)) k}"
    unfolding s by simp
  then have a: "\<not> contains (snd (updates depth2 calls3)) ''a''" by simp
  show ?thesis
    by (intro conjI) (rule init_depth2 n d s a)+
qed

lemma ld_setitem_overwrite_keys:
  "ld_contains d key \<Longrightarrow> fst ` set (ld_items (ld_setitem d key v)) = fst ` set (ld_items d)"
proof -
  assume c: "ld_contains d key"
  have "fst ` set (AList.delete key (ld_items d)) = set (map fst (AList.delete key (ld_items d)))"
    by simp
  also have "\<dots> = fst ` set (ld_items d) - {key}"
    by (simp only: delete_keys set_removeAll set_map)
  finally have "fst ` set (AList.delete key (ld_items d) @ [(key, v)])
                  = insert key (fst ` set (ld_items d) - {key})"
    by simp
  also have "\<dots> = fst ` set (ld_items d)"
    using c by (auto simp: ld_contains_iff)
  finally show ?thesis using c by (simp add: ld_setitem_def)
qed

lemma dup_calls_final:
  "snd (updates depth3 dup_calls)
     = \<lparr>buffer = \<lparr>dq_items = [20, 30, 40], dq_maxlen = Some 3\<rparr>,
        id_index = \<lparr>ld_items = [(''x'', 10), (''y'', 30), (''z'', 40)],
                    ld_maxlen = Some 3\<rparr>\<rparr>"
  unfolding updates_snd_foldl
  by (simp add: dup_calls_def depth3_def add_def Let_def deque_append_def ld_setitem_def
                ld_contains_def ld_full_def call_id_def)

text \<open>
  C2 as stated fails in two ways. With depth \<open>3\<close> and the identifiers \<open>x, y, y, z\<close> the
  buffer has dropped the first state and holds the states passed with \<open>y, y, z\<close>, while
  the map holds the three keys \<open>x, y, z\<close>: \<open>x\<close> is found, and gives the first state,
  although that state has left the buffer. The map never holds more than three keys in
  this run, so nothing is evicted from it, and the second \<open>y\<close> overwrites a key, which
  leaves the set of keys as it is (\<open>ld_setitem_overwrite_keys\<close>) wherever the key is put.
  With depth \<open>0\<close> the map is unbounded and the buffer holds nothing.
\<close>

theorem identifier_map_desynchronised:
  "init (Some 3) = Inr depth3
     \<and> dq_items (buffer (snd (updates depth3 dup_calls))) = [20, 30, 40]
     \<and> retained_ids depth3 dup_calls = [''y'', ''y'', ''z'']
     \<and> contains (snd (updates depth3 dup_calls)) ''x''
     \<and> getitem (snd (updates depth3 dup_calls)) (StrIndex ''x'') = Inr (State 10)
     \<and> {k. contains (snd (updates depth3 dup_calls)) k} \<noteq> set (retained_ids depth3 dup_calls)
     \<and> init (Some 0) = Inr depth0
     \<and> dq_items (buffer (snd (updates depth0 [(10, Some ''a'', ''u1'')]))) = []
     \<and> retained_ids depth0 [(10, Some ''a'', ''u1'')] = []
     \<and> contains (snd (updates depth0 [(10, Some ''a'', ''u1'')])) ''a''
     \<and> {k. contains (snd (updates depth0 [(10, Some ''a'', ''u1'')])) k}
           \<noteq> set (retained_ids depth0 [(10, Some ''a'', ''u1'')])"
proof -
  have b3: "dq_items (buffer (snd (updates depth3 dup_calls))) = [20, 30, 40]"
    unfolding dup_calls_final by simp
  have r3: "retained_ids depth3 dup_calls = [''y'', ''y'', ''z'']"
    unfolding retained_ids_eq dup_calls_final
    by (simp add: dup_calls_def call_id_def len_def deque_len_def)
  have c3: "contains (snd (updates depth3 dup_calls)) ''x''"
    unfolding dup_calls_final by (simp add: contains_def ld_contains_def)
  have g3: "getitem (snd (updates depth3 dup_calls)) (StrIndex ''x'') = Inr (State 10)"
    unfolding dup_calls_final by (simp add: get_by_temporal_id_def ld_get_def)
  have n3: "{k. contains (snd (updates depth3 dup_calls)) k} \<noteq> set (retained_ids depth3 dup_calls)"
  proof
    assume e: "{k. contains (snd (updates depth3 dup_calls)) k} = set (retained_ids depth3 dup_calls)"
    have "''x'' \<in> {k. contains (snd (updates depth3 dup_calls)) k}" using c3 by simp
    then have "''x'' \<in> set [''y'', ''y'', ''z'']" unfolding e r3 .
    then show False by simp
  qed
  have b0: "dq_items (buffer (snd (updates depth0 [(10, Some ''a'', ''u1'')]))) = []"
    by code_simp
  have r0: "retained_ids depth0 [(10, Some ''a'', ''u1'')] = []"
    by code_simp
  have c0: "contains (snd (updates depth0 [(10, Some ''a'', ''u1'')])) ''a''"
    by code_simp
  have n0: "{k. contains (snd (updates depth0 [(10, Some ''a'', ''u1'')])) k}
              \<noteq> set (retained_ids depth0 [(10, Some ''a'', ''u1'')])"
  proof
    assume e: "{k. contains (snd (updates depth0 [(10, Some ''a'', ''u1'')])) k}
                 = set (retained_ids depth0 [(10, Some ''a'', ''u1'')])"
    have "''a'' \<in> {k. contains (snd (updates depth0 [(10, Some ''a'', ''u1'')])) k}"
      using c0 by simp
    then have "''a'' \<in> set ([] :: string list)" unfolding e r0 .
    then show False by simp
  qed
  show ?thesis
    by (intro conjI) (rule init_depth3 b3 r3 c3 g3 n3 init_depth0 b0 r0 c0 n0)+
qed

text \<open>
  C3, as the code has it. After a sequence of \<open>update\<close> calls with pairwise distinct
  identifiers on a fresh object, the identifier returned by the call whose state is at
  recency position \<open>k\<close> of the buffer is contained in the object and indexes that very
  state. Directly after \<open>update(state, x)\<close>, on any object, indexing by \<open>x\<close> gives
  \<open>state\<close>.
\<close>

theorem identifier_round_trip:
  assumes "init cap = Inr t0" and "distinct (fst (updates t0 cs))"
    and "k < len (snd (updates t0 cs))"
  shows "contains (snd (updates t0 cs)) (rev (fst (updates t0 cs)) ! k)
       \<and> getitem (snd (updates t0 cs)) (StrIndex (rev (fst (updates t0 cs)) ! k))
           = Inr (State (fst (rev cs ! k)))
       \<and> fst (update self s (Some x) u) = x
       \<and> getitem (snd (update self s (Some x) u)) (StrIndex x) = Inr (State s)"
proof -
  let ?t = "snd (updates t0 cs)"
  let ?m = "length cs - len ?t"
  let ?c = "rev cs ! k"
  have d: "distinct (map call_id cs)" using assms(2) by (simp add: updates_fst)
  have "length (dq_items (buffer ?t)) = length (drop ?m (map fst cs))"
    by (rule arg_cong [OF buffer_suffix [OF assms(1)]])
  then have "len ?t = length cs - ?m"
    by (simp only: length_drop length_map len_def deque_len_def)
  then have le: "len ?t \<le> length cs" by linarith
  have k: "k < length cs" using assms(3) le by simp
  have nz: "cap \<noteq> Some 0"
  proof
    assume "cap = Some 0"
    with assms(1) init_Some [of 0 t0]
    have "buffer t0 = \<lparr>dq_items = [], dq_maxlen = Some 0\<rparr>" by simp
    from buffer_updates_window [OF this, of cs]
    have "len ?t = 0" by (simp add: len_def deque_len_def)
    with assms(3) show False by simp
  qed
  have items: "ld_items (id_index ?t) = drop ?m (map call_entry cs)"
    by (rule id_index_suffix [OF assms(1) nz d])
  have id: "rev (fst (updates t0 cs)) ! k = call_id ?c"
    using k by (simp add: updates_fst rev_nth)
  have pos: "?c = cs ! (length cs - Suc k)"
    using k by (simp add: rev_nth)
  have "?m \<le> length cs - Suc k" using assms(3) k by linarith
  then have "cs ! (length cs - Suc k) = drop ?m cs ! (length cs - Suc k - ?m)"
    using k by simp
  moreover have "length cs - Suc k - ?m < length (drop ?m cs)"
    using assms(3) k by simp
  ultimately have "?c \<in> set (drop ?m cs)"
    unfolding pos by (metis nth_mem)
  then have "call_entry ?c \<in> set (drop ?m (map call_entry cs))"
    by (simp add: drop_map)
  then have mem: "(call_id ?c, fst ?c) \<in> set (ld_items (id_index ?t))"
    by (simp add: items call_entry_def [of ?c])
  have "distinct (map fst (ld_items (id_index ?t)))"
    using d by (simp only: items drop_map [symmetric] map_fst_call_entry distinct_drop)
  from map_of_is_SomeI [OF this mem]
  have look: "map_of (ld_items (id_index ?t)) (call_id ?c) = Some (fst ?c)" .
  have c1: "contains ?t (rev (fst (updates t0 cs)) ! k)"
    by (simp add: id contains_def ld_contains_def look)
  have c2: "getitem ?t (StrIndex (rev (fst (updates t0 cs)) ! k)) = Inr (State (fst ?c))"
    by (simp add: id get_by_temporal_id_def ld_get_def look)
  have c3: "fst (update self s (Some x) u) = x"
    by (simp add: update_def)
  have c4: "getitem (snd (update self s (Some x) u)) (StrIndex x) = Inr (State s)"
    by (simp add: update_def id_index_add get_by_temporal_id_def ld_get_def ld_setitem_lookup)
  show ?thesis using c1 c2 c3 c4 by simp
qed

theorem identifier_round_trip_witness:
  "init (Some 2) = Inr depth2 \<and> distinct (fst (updates depth2 calls3))
     \<and> 1 < len (snd (updates depth2 calls3))
     \<and> rev (fst (updates depth2 calls3)) ! 1 = ''b''
     \<and> contains (snd (updates depth2 calls3)) ''b''
     \<and> getitem (snd (updates depth2 calls3)) (StrIndex ''b'') = Inr (State 20)
     \<and> getitem (snd (update unbounded 40 (Some ''x'') ''u'')) (StrIndex ''x'') = Inr (State 40)"
proof -
  have d: "distinct (fst (updates depth2 calls3))"
    unfolding updates_fst by (simp add: calls3_def call_id_def)
  have l: "1 < len (snd (updates depth2 calls3))"
    by code_simp
  have i: "rev (fst (updates depth2 calls3)) ! 1 = ''b''"
    unfolding updates_fst by (simp add: calls3_def call_id_def)
  have c: "fst (rev calls3 ! 1) = 20"
    by (simp add: calls3_def)
  note rt = identifier_round_trip [OF init_depth2 d l, of unbounded 40 "''x''" "''u''",
      unfolded i c]
  show ?thesis
    by (intro conjI) (rule init_depth2 d l i rt [THEN conjunct1]
        rt [THEN conjunct2, THEN conjunct1]
        rt [THEN conjunct2, THEN conjunct2, THEN conjunct2])+
qed

text \<open>
  C3 as stated fails when an identifier is passed twice: the first state is still in the
  buffer, and its identifier now gives the second state.
\<close>

theorem reused_identifier_returns_later_state:
  "init None = Inr unbounded
     \<and> fst (updates unbounded same_id_calls) = [''x'', ''x'']
     \<and> dq_items (buffer (snd (updates unbounded same_id_calls))) = [10, 20]
     \<and> getitem (snd (updates unbounded same_id_calls)) (StrIndex ''x'') = Inr (State 20)
     \<and> getitem (snd (updates unbounded same_id_calls)) (StrIndex ''x'') \<noteq> Inr (State 10)"
  by (simp add: init_unbounded same_id_calls_def unbounded_def run_defs
                get_by_temporal_id_def ld_get_def)

section \<open>Slices\<close>

lemma comprehension_ok:
  "(\<And>x. x \<in> set xs \<Longrightarrow> f x = Inr (g x)) \<Longrightarrow> comprehension f xs = Inr (map g xs)"
  by (induction xs) simp_all

lemma deque_getitem_in_range:
  "0 \<le> i \<Longrightarrow> i < int (length (dq_items d)) \<Longrightarrow> deque_getitem d i = Inr (dq_items d ! nat i)"
  by (simp add: deque_getitem_def Let_def)

lemma slice_indices_error: "slice_indices a b c n = Inl e \<Longrightarrow> e = ValueError"
  by (auto simp: slice_indices_def Let_def split: if_splits)

lemma slice_indices_forward:
  assumes "slice_indices a b c n = Inr (x, y, st)" and "0 \<le> n" and "0 < st"
  shows "0 \<le> x \<and> y \<le> n"
  using assms by (auto simp: slice_indices_def Let_def split: if_splits option.splits)

lemma slice_indices_backward:
  assumes "slice_indices a b c n = Inr (x, y, st)" and "0 \<le> n" and "\<not> 0 < st"
  shows "st < 0 \<and> x \<le> n - 1 \<and> - 1 \<le> y"
  using assms by (auto simp: slice_indices_def Let_def split: if_splits option.splits)

lemma mult_le_of_le_div:
  fixes q s :: int
  assumes "0 < s" and "int i \<le> q div s"
  shows "int i * s \<le> q"
proof -
  have "int i * s \<le> (q div s) * s"
    using assms by (simp add: mult_right_mono)
  also have "\<dots> \<le> q"
    using div_mult_mod_eq [of q s] pos_mod_sign [of s q] assms(1) by linarith
  finally show ?thesis .
qed

lemma py_range_forward:
  assumes "0 < st" and "0 \<le> x" and "y \<le> n" and "i \<in> set (py_range x y st)"
  shows "0 \<le> i \<and> i < n"
proof -
  from assms(4) obtain k where k: "k < range_len x y st" and i: "i = x + int k * st"
    by (auto simp: py_range_def)
  from k assms(1) have xy: "x < y" and "int k \<le> (y - x - 1) div st"
    by (auto simp: range_len_def split: if_splits)
  from mult_le_of_le_div [OF assms(1) this(2)] have "int k * st \<le> y - x - 1" .
  moreover have "0 \<le> int k * st" using assms(1) by simp
  ultimately show ?thesis using assms(2,3) i by linarith
qed

lemma py_range_backward:
  assumes "st < 0" and "x \<le> n - 1" and "- 1 \<le> y" and "i \<in> set (py_range x y st)"
  shows "0 \<le> i \<and> i < n"
proof -
  from assms(4) obtain k where k: "k < range_len x y st" and i: "i = x + int k * st"
    by (auto simp: py_range_def)
  have pos: "0 < - st" using assms(1) by simp
  from k assms(1) have "y < x" and "int k \<le> (x - y - 1) div (- st)"
    by (auto simp: range_len_def split: if_splits)
  from mult_le_of_le_div [OF pos this(2)] have up: "int k * (- st) \<le> x - y - 1" .
  define m where "m = int k * (- st)"
  have "0 \<le> m" unfolding m_def using pos by (intro mult_nonneg_nonneg) simp_all
  moreover have "m \<le> x - y - 1" unfolding m_def by (rule up)
  moreover have "i = x - m" unfolding m_def i by simp
  ultimately show ?thesis using assms(2,3) by linarith
qed

lemma getitem_slice:
  "getitem self (SliceIndex a b c) =
     (case slice_indices a b c (int (length (dq_items (buffer self)))) of
        Inl e \<Rightarrow> Inl e
      | Inr (x, y, st) \<Rightarrow>
          Inr (StateList (map (\<lambda>i. dq_items (buffer self) ! nat i) (py_range x y st))))"
proof (cases "slice_indices a b c (int (length (dq_items (buffer self))))")
  case (Inl e)
  then show ?thesis by (simp add: deque_len_def)
next
  case (Inr r)
  obtain x y st where r: "r = (x, y, st)" by (cases r)
  let ?n = "int (length (dq_items (buffer self)))"
  have si: "slice_indices a b c ?n = Inr (x, y, st)" using Inr r by simp
  have "0 \<le> i \<and> i < ?n" if "i \<in> set (py_range x y st)" for i
  proof (cases "0 < st")
    case True
    from slice_indices_forward [OF si _ True] have "0 \<le> x \<and> y \<le> ?n" by simp
    then show ?thesis using py_range_forward [OF True _ _ that] by blast
  next
    case False
    from slice_indices_backward [OF si _ False]
    have "st < 0 \<and> x \<le> ?n - 1 \<and> - 1 \<le> y" by simp
    then show ?thesis using py_range_backward [OF _ _ _ that] by blast
  qed
  then have "deque_getitem (buffer self) i = Inr (dq_items (buffer self) ! nat i)"
    if "i \<in> set (py_range x y st)" for i
    using that by (simp add: deque_getitem_in_range)
  from comprehension_ok [of "py_range x y st" "deque_getitem (buffer self)", OF this]
  show ?thesis by (simp add: deque_len_def si)
qed

lemma drop_as_map: "map (\<lambda>i. xs ! (k + i)) [0 ..< length xs - k] = drop k xs"
  by (rule nth_equalityI) simp_all

lemma py_range_step_one:
  "x \<le> y \<Longrightarrow> py_range x y 1 = map (\<lambda>i. x + int i) [0 ..< nat (y - x)]"
  by (simp add: py_range_def range_len_def)

lemma slice_from:
  assumes "0 \<le> x" and "x \<le> int (length (dq_items (buffer self)))"
    and "slice_indices a b c (int (length (dq_items (buffer self))))
           = Inr (x, int (length (dq_items (buffer self))), 1)"
  shows "getitem self (SliceIndex a b c) = Inr (StateList (drop (nat x) (dq_items (buffer self))))"
proof -
  let ?xs = "dq_items (buffer self)"
  have "map (\<lambda>i. ?xs ! nat i) (py_range x (int (length ?xs)) 1)
          = map (\<lambda>i. ?xs ! (nat x + i)) [0 ..< length ?xs - nat x]"
    using assms(1,2) by (simp add: py_range_step_one nat_add_distrib nat_diff_distrib)
  also have "\<dots> = drop (nat x) ?xs" by (rule drop_as_map)
  finally show ?thesis by (simp only: getitem_slice assms(3)) simp
qed

lemma slice_bound_le: "dflt \<le> n \<Longrightarrow> slice_bound n dflt b \<le> n"
  by (simp add: slice_bound_def split: option.splits)

lemma clamp_start:
  "(if s < 0 then max (s + int n) 0 else min s (int n)) = int (slice_bound n d (Some s))"
  by (simp add: slice_bound_def max_def min_def) linarith

lemma slice_indices_forward_eq:
  assumes "0 < st"
  shows "slice_indices a b (Some st) (int n)
           = Inr (int (slice_bound n 0 a), int (slice_bound n n b), st)"
proof -
  have a: "(case a of None \<Rightarrow> 0 | Some s \<Rightarrow> (if s < 0 then max (s + int n) 0 else min s (int n)))
             = int (slice_bound n 0 a)"
    by (cases a) (simp_all only: option.case clamp_start, simp add: slice_bound_def)
  have b: "(case b of None \<Rightarrow> int n | Some s \<Rightarrow> (if s < 0 then max (s + int n) 0 else min s (int n)))
             = int (slice_bound n n b)"
    by (cases b) (simp_all only: option.case clamp_start, simp add: slice_bound_def)
  show ?thesis
    using assms by (simp add: slice_indices_def Let_def a b)
qed

lemma slice_indices_no_step:
  "slice_indices a b None n = slice_indices a b (Some 1) n"
  by (simp add: slice_indices_def)

lemma range_len_forward:
  assumes "0 < st"
  shows "range_len (int lo) (int hi) st = (hi - lo + nat st - 1) div nat st"
proof (cases "lo < hi")
  case True
  define d where "d = hi - lo - 1"
  define s where "s = nat st"
  have s: "0 < s" "st = int s" using assms by (simp_all add: s_def)
  have "int hi - int lo - 1 = int d" using True by (simp add: d_def)
  then have "range_len (int lo) (int hi) st = nat (int d div int s + 1)"
    using True s by (simp add: range_len_def)
  also have "\<dots> = d div s + 1"
    by (simp add: zdiv_int [symmetric] nat_add_distrib)
  also have "\<dots> = (d + s) div s" using s(1) by (simp add: div_add_self2)
  also have "d + s = hi - lo + s - 1" using True by (simp add: d_def)
  finally show ?thesis by (simp add: s_def)
next
  case False
  then have "range_len (int lo) (int hi) st = 0"
    using assms by (simp add: range_len_def)
  moreover have "(hi - lo + nat st - 1) div nat st = 0"
    using False assms by simp
  ultimately show ?thesis by simp
qed

lemma getitem_slice_forward:
  assumes "0 < st"
  shows "getitem self (SliceIndex a b (Some st)) =
     Inr (StateList
       (map (\<lambda>k. dq_items (buffer self) ! (slice_bound (len self) 0 a + k * nat st))
          [0 ..< (slice_bound (len self) (len self) b - slice_bound (len self) 0 a
                   + nat st - 1) div nat st]))"
proof -
  let ?xs = "dq_items (buffer self)"
  let ?lo = "slice_bound (len self) 0 a"
  let ?hi = "slice_bound (len self) (len self) b"
  have n: "length ?xs = len self" by (simp add: len_def deque_len_def)
  have "nat (int ?lo + int k * st) = ?lo + k * nat st" for k
    using assms by (simp add: nat_add_distrib nat_mult_distrib)
  then have "map (\<lambda>i. ?xs ! nat i) (py_range (int ?lo) (int ?hi) st)
          = map (\<lambda>k. ?xs ! (?lo + k * nat st)) [0 ..< (?hi - ?lo + nat st - 1) div nat st]"
    by (simp add: py_range_def range_len_forward [OF assms] o_def)
  then show ?thesis
    by (simp only: getitem_slice n slice_indices_forward_eq [OF assms]) simp
qed

lemma drop_take_as_map:
  "hi \<le> length xs \<Longrightarrow> map (\<lambda>k. xs ! (lo + k)) [0 ..< hi - lo] = drop lo (take hi xs)"
  by (rule nth_equalityI) (simp_all add: min_def)

lemma getitem_slice_unit_step:
  "getitem self (SliceIndex a b (Some 1)) =
     Inr (StateList (drop (slice_bound (len self) 0 a)
                          (take (slice_bound (len self) (len self) b) (dq_items (buffer self)))))"
proof -
  have "slice_bound (len self) (len self) b \<le> length (dq_items (buffer self))"
    by (simp add: slice_bound_le len_def deque_len_def)
  from drop_take_as_map [OF this, of "slice_bound (len self) 0 a"]
  have m: "map (\<lambda>k. dq_items (buffer self) ! (slice_bound (len self) 0 a + k))
             [0 ..< slice_bound (len self) (len self) b - slice_bound (len self) 0 a]
           = drop (slice_bound (len self) 0 a)
               (take (slice_bound (len self) (len self) b) (dq_items (buffer self)))" .
  have one: "(0::int) < 1" by simp
  have "getitem self (SliceIndex a b (Some 1)) =
     Inr (StateList (map (\<lambda>k. dq_items (buffer self) ! (slice_bound (len self) 0 a + k))
             [0 ..< slice_bound (len self) (len self) b - slice_bound (len self) 0 a]))"
    using getitem_slice_forward [OF one, of self a b] by simp
  then show ?thesis by (simp only: m)
qed

lemma getitem_slice_no_step:
  "getitem self (SliceIndex a b None) = getitem self (SliceIndex a b (Some 1))"
  by (simp add: slice_indices_no_step)

lemma getitem_slice_reversed:
  "getitem self (SliceIndex None None (Some (- 1))) = Inr (StateList (rev (dq_items (buffer self))))"
proof -
  let ?xs = "dq_items (buffer self)"
  let ?n = "length ?xs"
  have si: "slice_indices None None (Some (- 1)) (int ?n) = Inr (int ?n - 1, - 1, - 1)"
    by (simp add: slice_indices_def Let_def)
  have rl: "range_len (int ?n - 1) (- 1) (- 1) = ?n"
    by (simp add: range_len_def)
  have "map (\<lambda>i. ?xs ! nat i) (py_range (int ?n - 1) (- 1) (- 1)) = rev ?xs"
  proof (rule nth_equalityI)
    show "length (map (\<lambda>i. ?xs ! nat i) (py_range (int ?n - 1) (- 1) (- 1))) = length (rev ?xs)"
      by (simp add: py_range_def rl)
  next
    fix k
    assume "k < length (map (\<lambda>i. ?xs ! nat i) (py_range (int ?n - 1) (- 1) (- 1)))"
    then have k: "k < ?n" by (simp add: py_range_def rl)
    then have "nat (int ?n - 1 + int k * (- 1)) = ?n - Suc k" by linarith
    then show "map (\<lambda>i. ?xs ! nat i) (py_range (int ?n - 1) (- 1) (- 1)) ! k = rev ?xs ! k"
      using k by (simp add: py_range_def rl rev_nth)
  qed
  then show ?thesis
    by (simp only: getitem_slice si) simp
qed

lemma getitem_slice_zero_step:
  "getitem self (SliceIndex a b (Some 0)) = Inl ValueError"
  by (simp add: slice_indices_def)

lemma clamp_back:
  "(if s < 0 then max (s + int n) (- 1) else min s (int n - 1))
     = int (slice_bound_back n d (Some s)) - 1"
  by (simp add: slice_bound_back_def max_def min_def) linarith

lemma slice_indices_backward_eq:
  assumes "st < 0"
  shows "slice_indices a b (Some st) (int n)
           = Inr (int (slice_bound_back n n a) - 1, int (slice_bound_back n 0 b) - 1, st)"
proof -
  have a: "(case a of None \<Rightarrow> int n - 1
            | Some s \<Rightarrow> (if s < 0 then max (s + int n) (- 1) else min s (int n - 1)))
             = int (slice_bound_back n n a) - 1"
    by (cases a) (simp_all only: option.case clamp_back, simp add: slice_bound_back_def)
  have b: "(case b of None \<Rightarrow> - 1
            | Some s \<Rightarrow> (if s < 0 then max (s + int n) (- 1) else min s (int n - 1)))
             = int (slice_bound_back n 0 b) - 1"
    by (cases b) (simp_all only: option.case clamp_back, simp add: slice_bound_back_def)
  show ?thesis
    using assms by (simp add: slice_indices_def Let_def a b)
qed

lemma range_len_backward:
  assumes "st < 0"
  shows "range_len (int hi - 1) (int lo - 1) st = (hi - lo + nat (- st) - 1) div nat (- st)"
proof -
  have "range_len (int hi - 1) (int lo - 1) st = range_len (int lo) (int hi) (- st)"
    using assms by (simp add: range_len_def)
  also have "\<dots> = (hi - lo + nat (- st) - 1) div nat (- st)"
    by (rule range_len_forward) (use assms in simp)
  finally show ?thesis .
qed

lemma getitem_slice_backward:
  assumes "st < 0"
  shows "getitem self (SliceIndex a b (Some st)) =
     Inr (StateList
       (map (\<lambda>k. dq_items (buffer self)
                    ! (slice_bound_back (len self) (len self) a - 1 - k * nat (- st)))
          [0 ..< (slice_bound_back (len self) (len self) a - slice_bound_back (len self) 0 b
                   + nat (- st) - 1) div nat (- st)]))"
proof -
  let ?xs = "dq_items (buffer self)"
  let ?hi = "slice_bound_back (len self) (len self) a"
  let ?lo = "slice_bound_back (len self) 0 b"
  have n: "length ?xs = len self" by (simp add: len_def deque_len_def)
  have "nat (int ?hi - 1 + int k * st) = ?hi - 1 - k * nat (- st)" for k
  proof -
    define m where "m = k * nat (- st)"
    have "int k * st = - int m"
      using assms by (simp add: m_def)
    then have "nat (int ?hi - 1 + int k * st) = ?hi - 1 - m" by linarith
    then show ?thesis by (simp add: m_def)
  qed
  then have "map (\<lambda>i. ?xs ! nat i) (py_range (int ?hi - 1) (int ?lo - 1) st)
          = map (\<lambda>k. ?xs ! (?hi - 1 - k * nat (- st)))
              [0 ..< (?hi - ?lo + nat (- st) - 1) div nat (- st)]"
    by (simp add: py_range_def range_len_backward [OF assms] o_def)
  then show ?thesis
    by (simp only: getitem_slice n slice_indices_backward_eq [OF assms]) simp
qed

text \<open>
  C7. For \<open>n \<ge> 1\<close>, \<open>recent(n)\<close> returns the last \<open>min(n, length)\<close> states of the buffer,
  oldest first, as a list, also when the buffer is empty or shorter than \<open>n\<close>. Indexing by
  a slice never raises \<open>IndexError\<close> and returns a list whenever the step is not zero
  (a zero step raises \<open>ValueError\<close>). The bounds are clamped: without a step, or with
  step \<open>1\<close>, the result is the buffer from the clamped start up to the clamped stop; with a
  positive step it is every step-th state of that range; with a negative step the states
  are taken downwards from the clamped start to above the clamped stop, and the slice
  \<open>[::-1]\<close> is the reversed buffer.
\<close>

theorem recent_returns_latest:
  assumes "1 \<le> n"
  shows "recent self n = Inr (StateList (drop (len self - nat n) (dq_items (buffer self))))
       \<and> length (drop (len self - nat n) (dq_items (buffer self))) = min (nat n) (len self)
       \<and> getitem self (SliceIndex a b c) \<noteq> Inl IndexError
       \<and> (c \<noteq> Some 0 \<longrightarrow> (\<exists>ss. getitem self (SliceIndex a b c) = Inr (StateList ss)))
       \<and> getitem self (SliceIndex a b None) =
           Inr (StateList (drop (slice_bound (len self) 0 a)
                  (take (slice_bound (len self) (len self) b) (dq_items (buffer self)))))
       \<and> getitem self (SliceIndex a b (Some 1)) = getitem self (SliceIndex a b None)
       \<and> (0 < st \<longrightarrow>
            getitem self (SliceIndex a b (Some st)) =
              Inr (StateList
                (map (\<lambda>k. dq_items (buffer self) ! (slice_bound (len self) 0 a + k * nat st))
                   [0 ..< (slice_bound (len self) (len self) b - slice_bound (len self) 0 a
                            + nat st - 1) div nat st])))
       \<and> (sb < 0 \<longrightarrow>
            getitem self (SliceIndex a b (Some sb)) =
              Inr (StateList
                (map (\<lambda>k. dq_items (buffer self)
                             ! (slice_bound_back (len self) (len self) a - 1 - k * nat (- sb)))
                   [0 ..< (slice_bound_back (len self) (len self) a
                            - slice_bound_back (len self) 0 b + nat (- sb) - 1) div nat (- sb)])))
       \<and> getitem self (SliceIndex None None (Some (- 1)))
           = Inr (StateList (rev (dq_items (buffer self))))
       \<and> getitem self (SliceIndex a b (Some 0)) = Inl ValueError"
proof -
  let ?xs = "dq_items (buffer self)"
  let ?L = "int (length ?xs)"
  have si: "slice_indices (Some (- n)) None None ?L = Inr (max (?L - n) 0, ?L, 1)"
    using assms by (simp add: slice_indices_def Let_def add.commute)
  have "getitem self (SliceIndex (Some (- n)) None None)
          = Inr (StateList (drop (nat (max (?L - n) 0)) ?xs))"
    by (rule slice_from [OF _ _ si]) (use assms in simp_all)
  moreover have "nat (max (?L - n) 0) = length ?xs - nat n"
    using assms by (simp add: max_def nat_diff_distrib)
  ultimately have r: "recent self n = Inr (StateList (drop (len self - nat n) ?xs))"
    by (simp add: recent_def len_def deque_len_def)
  have l: "length (drop (len self - nat n) ?xs) = min (nat n) (len self)"
    by (simp add: len_def deque_len_def)
  have e: "getitem self (SliceIndex a b c) \<noteq> Inl IndexError"
    unfolding getitem_slice by (auto split: sum.splits dest: slice_indices_error)
  have s: "\<exists>ss. getitem self (SliceIndex a b c) = Inr (StateList ss)" if "c \<noteq> Some 0"
    using that unfolding getitem_slice
    by (cases c) (auto simp: slice_indices_def Let_def split: sum.splits)
  have u: "getitem self (SliceIndex a b None) =
           Inr (StateList (drop (slice_bound (len self) 0 a)
                  (take (slice_bound (len self) (len self) b) ?xs)))"
    by (simp only: getitem_slice_no_step getitem_slice_unit_step)
  have o: "getitem self (SliceIndex a b (Some 1)) = getitem self (SliceIndex a b None)"
    by (simp only: getitem_slice_no_step)
  note f = getitem_slice_forward [of st self a b]
  note k = getitem_slice_backward [of sb self a b]
  note v = getitem_slice_reversed [of self]
  note z = getitem_slice_zero_step [of self a b]
  show ?thesis
    apply (intro conjI impI)
             apply (rule r)
            apply (rule l)
           apply (rule e)
          apply (erule s)
         apply (rule u)
        apply (rule o)
       apply (erule f)
      apply (erule k)
     apply (rule v)
    apply (rule z)
    done
qed

theorem recent_returns_latest_witness:
  "(1::int) \<le> 10 \<and> (0::int) < 2 \<and> (- 2 :: int) < 0
     \<and> len two_states = 2
     \<and> recent two_states 10 = Inr (StateList [[(''x'', 1)], [(''x'', 2)]])
     \<and> recent two_states 1 = Inr (StateList [[(''x'', 2)]])
     \<and> getitem two_states (SliceIndex (Some 5) (Some 9) None) = Inr (StateList [])
     \<and> recent no_states 1 = Inr (StateList [])
     \<and> getitem abc (SliceIndex (Some 1) (Some 9) None) = Inr (StateList [20, 30])
     \<and> getitem abc (SliceIndex (Some (- 2)) (Some (- 1)) None) = Inr (StateList [20])
     \<and> getitem abc (SliceIndex (Some 0) (Some 3) (Some 2)) = Inr (StateList [10, 30])
     \<and> getitem abc (SliceIndex (Some 2) (Some 0) (Some (- 2))) = Inr (StateList [30])
     \<and> getitem abc (SliceIndex None None (Some (- 2))) = Inr (StateList [30, 10])
     \<and> getitem abc (SliceIndex None None (Some (- 1))) = Inr (StateList [30, 20, 10])
     \<and> getitem abc (SliceIndex None None (Some 0)) = Inl ValueError"
proof -
  have h: "(1::int) \<le> 10" and h1: "(1::int) \<le> 1" and p: "(0::int) < 2" and m: "(- 2 :: int) < 0"
    by simp_all
  have l2: "len two_states = 2" by (simp add: two_states_def len_def deque_len_def)
  note big = recent_returns_latest [OF h, of two_states "Some 5" "Some 9" None 2 "- 2"]
  note one = recent_returns_latest [OF h1, of two_states "Some 5" "Some 9" None 2 "- 2"]
  note emp = recent_returns_latest [OF h1, of no_states None None None 2 "- 2"]
  note s19 = recent_returns_latest [OF h, of abc "Some 1" "Some 9" None 2 "- 2"]
  note s21 = recent_returns_latest [OF h, of abc "Some (- 2)" "Some (- 1)" None 2 "- 2"]
  note s03 = recent_returns_latest [OF h, of abc "Some 0" "Some 3" None 2 "- 2"]
  note s20 = recent_returns_latest [OF h, of abc "Some 2" "Some 0" None 2 "- 2"]
  note sNN = recent_returns_latest [OF h, of abc None None None 2 "- 2"]
  have a: "recent two_states 10 = Inr (StateList [[(''x'', 1)], [(''x'', 2)]])"
    by (rule trans [OF big [THEN conjunct1]]) code_simp
  have b: "recent two_states 1 = Inr (StateList [[(''x'', 2)]])"
    by (rule trans [OF one [THEN conjunct1]]) code_simp
  have c: "getitem two_states (SliceIndex (Some 5) (Some 9) None) = Inr (StateList [])"
    by (rule trans [OF big [THEN conjunct2, THEN conjunct2, THEN conjunct2, THEN conjunct2,
          THEN conjunct1]]) code_simp
  have d: "recent no_states 1 = Inr (StateList [])"
    by (rule trans [OF emp [THEN conjunct1]]) code_simp
  have e: "getitem abc (SliceIndex (Some 1) (Some 9) None) = Inr (StateList [20, 30])"
    by (rule trans [OF s19 [THEN conjunct2, THEN conjunct2, THEN conjunct2, THEN conjunct2,
          THEN conjunct1]]) code_simp
  have f: "getitem abc (SliceIndex (Some (- 2)) (Some (- 1)) None) = Inr (StateList [20])"
    by (rule trans [OF s21 [THEN conjunct2, THEN conjunct2, THEN conjunct2, THEN conjunct2,
          THEN conjunct1]]) code_simp
  have g: "getitem abc (SliceIndex (Some 0) (Some 3) (Some 2)) = Inr (StateList [10, 30])"
    by (rule trans [OF s03 [THEN conjunct2, THEN conjunct2, THEN conjunct2, THEN conjunct2,
          THEN conjunct2, THEN conjunct2, THEN conjunct1, THEN mp, OF p]]) code_simp
  have i: "getitem abc (SliceIndex (Some 2) (Some 0) (Some (- 2))) = Inr (StateList [30])"
    by (rule trans [OF s20 [THEN conjunct2, THEN conjunct2, THEN conjunct2, THEN conjunct2,
          THEN conjunct2, THEN conjunct2, THEN conjunct2, THEN conjunct1, THEN mp, OF m]])
       code_simp
  have j: "getitem abc (SliceIndex None None (Some (- 2))) = Inr (StateList [30, 10])"
    by (rule trans [OF sNN [THEN conjunct2, THEN conjunct2, THEN conjunct2, THEN conjunct2,
          THEN conjunct2, THEN conjunct2, THEN conjunct2, THEN conjunct1, THEN mp, OF m]])
       code_simp
  have k: "getitem abc (SliceIndex None None (Some (- 1))) = Inr (StateList [30, 20, 10])"
    by (rule trans [OF sNN [THEN conjunct2, THEN conjunct2, THEN conjunct2, THEN conjunct2,
          THEN conjunct2, THEN conjunct2, THEN conjunct2, THEN conjunct2, THEN conjunct1]])
       code_simp
  have z: "getitem abc (SliceIndex None None (Some 0)) = Inl ValueError"
    by (rule sNN [THEN conjunct2, THEN conjunct2, THEN conjunct2, THEN conjunct2,
          THEN conjunct2, THEN conjunct2, THEN conjunct2, THEN conjunct2, THEN conjunct2])
  show ?thesis by (intro conjI) (rule h p m l2 a b c d e f g i j k z)+
qed

text \<open>
  C10. \<open>recent(0)\<close> returns the whole buffer, oldest first: the slice starts at \<open>-0 = 0\<close>.
\<close>

theorem recent_zero_returns_all:
  "recent self 0 = Inr (StateList (dq_items (buffer self)))"
proof -
  let ?L = "int (length (dq_items (buffer self)))"
  have si: "slice_indices (Some (- 0)) None None ?L = Inr (0, ?L, 1)"
    by (simp add: slice_indices_def Let_def)
  have "getitem self (SliceIndex (Some (- 0)) None None)
          = Inr (StateList (drop (nat 0) (dq_items (buffer self))))"
    by (rule slice_from [OF _ _ si]) simp_all
  then show ?thesis by (simp add: recent_def)
qed

theorem recent_zero_returns_all_witness:
  "recent abc 0 = Inr (StateList [10, 20, 30])"
  using recent_zero_returns_all [of abc] by (simp add: abc_def)

end
